theory Spec2Isabelle
  imports Main "HOL-Library.Sublist" "HOL-Library.Char_ord"
begin

section \<open>The JSON extraction pipeline of \<^verbatim>\<open>langroid/parsing/json.py\<close>\<close>

text \<open>
  The module extracts brace-delimited candidates from free text, removes backslash escapes
  in front of \<^verbatim>\<open>{\<close>, \<^verbatim>\<open>}\<close> and \<^verbatim>\<open>_\<close>, replaces bareword values after a colon by a
  placeholder, and keeps the candidates that \<^verbatim>\<open>json.loads\<close> accepts.

  A Python \<^verbatim>\<open>str\<close> is modelled as a \<^typ>\<open>string\<close>: one \<^typ>\<open>char\<close> per code point, so the
  texts covered are those whose code points are below 256. The module delegates its work to
  \<^verbatim>\<open>str.replace\<close>, \<^verbatim>\<open>re.sub\<close>, pyparsing's \<^verbatim>\<open>nestedExpr\<close> and \<^verbatim>\<open>json.loads\<close>; each is
  modelled below from its documented behaviour (CPython 3.11, pyparsing 3). Interpreter
  resource limits (recursion depth, the limit on the number of digits of an integer
  literal) are not part of the model: the functions below run on an unbounded stack.
\<close>

subsection \<open>\<^verbatim>\<open>str.replace\<close> and the normalization of a candidate\<close>

definition backslash :: char where
  "backslash = CHR 0x5C"

text \<open>
  \<^verbatim>\<open>s.replace(old, new)\<close> scans \<^verbatim>\<open>s\<close> from the left and replaces each occurrence of
  \<^verbatim>\<open>old\<close> that does not overlap an earlier replaced one. With an empty \<^verbatim>\<open>old\<close>, Python
  inserts \<^verbatim>\<open>new\<close> in front of every character and at the end.
\<close>

function str_replace :: "string \<Rightarrow> string \<Rightarrow> string \<Rightarrow> string" where
  "str_replace old new [] = (if old = [] then new else [])"
| "str_replace old new (c # cs) =
     (if old = [] then new @ c # str_replace old new cs
      else if prefix old (c # cs) then new @ str_replace old new (drop (length old) (c # cs))
      else c # str_replace old new cs)"
  by pat_completeness auto
termination
  by (relation "measure (\<lambda>(old, new, s). length s)") (auto simp: neq_Nil_conv)

text \<open>
  The list comprehension of \<^verbatim>\<open>extract_top_level_json\<close>:
  \<^verbatim>\<open>candidate.replace("\\{", "{").replace("\\}", "}").replace("\\_", "_")\<close>.
  Each Python literal \<^verbatim>\<open>"\\{"\<close> is the two characters backslash, brace.
\<close>

definition normalize_candidate :: "string \<Rightarrow> string" where
  "normalize_candidate candidate =
     str_replace [backslash, CHR ''_''] ''_''
       (str_replace [backslash, CHR ''}''] ''}''
          (str_replace [backslash, CHR ''{''] ''{'' candidate))"

text \<open>Python's \<^verbatim>\<open>sub in s\<close> on sequences of characters.\<close>

fun occurs_in :: "'a list \<Rightarrow> 'a list \<Rightarrow> bool" where
  "occurs_in sub [] = (sub = [])"
| "occurs_in sub (c # cs) = (prefix sub (c # cs) \<or> occurs_in sub cs)"

subsection \<open>\<^verbatim>\<open>replace_undefined\<close>: the substitution of bareword values\<close>

text \<open>
  \<^verbatim>\<open>re.sub(r":\s*([a-zA-Z_][a-zA-Z_0-9\-]*)", f": {undefined_placeholder}", s)\<close>.
  In a \<^verbatim>\<open>str\<close> pattern \<^verbatim>\<open>\s\<close> matches the Unicode white space; below 256 these are the code
  points 9 to 13, 28 to 32, 133 and 160. The two character classes are ASCII ranges.
\<close>

definition re_space :: "char \<Rightarrow> bool" where
  "re_space c =
     (let n = (of_char c :: nat)
      in (9 \<le> n \<and> n \<le> 13) \<or> (28 \<le> n \<and> n \<le> 32) \<or> n = 133 \<or> n = 160)"

definition ident_start :: "char \<Rightarrow> bool" where
  "ident_start c =
     ((CHR ''a'' \<le> c \<and> c \<le> CHR ''z'') \<or> (CHR ''A'' \<le> c \<and> c \<le> CHR ''Z'') \<or> c = CHR ''_'')"

definition ident_char :: "char \<Rightarrow> bool" where
  "ident_char c = (ident_start c \<or> (CHR ''0'' \<le> c \<and> c \<le> CHR ''9'') \<or> c = CHR ''-'')"

text \<open>
  The pattern at the head of a string: a colon, the longest run of white space, one
  character of \<^verbatim>\<open>[a-zA-Z_]\<close>, the longest run of \<^verbatim>\<open>[a-zA-Z_0-9\-]\<close>. White space and
  identifier characters are disjoint, so backtracking into \<^verbatim>\<open>\s*\<close> never finds a match
  that the greedy run misses. The result is the text after the match.
\<close>

fun match_undefined :: "string \<Rightarrow> string option" where
  "match_undefined [] = None"
| "match_undefined (c # cs) =
     (if c = CHR '':'' then
        (case dropWhile re_space cs of
           [] \<Rightarrow> None
         | d # ds \<Rightarrow> if ident_start d then Some (dropWhile ident_char ds) else None)
      else None)"

lemma match_undefined_shorter: "match_undefined s = Some r \<Longrightarrow> length r < length s"
proof (cases s)
  case (Cons c cs)
  assume m: "match_undefined s = Some r"
  then obtain d ds where d: "dropWhile re_space cs = d # ds" and r: "r = dropWhile ident_char ds"
    using Cons by (auto split: if_splits list.splits)
  have "length r \<le> length ds" unfolding r by (rule length_dropWhile_le)
  moreover have "length (d # ds) \<le> length cs" unfolding d[symmetric] by (rule length_dropWhile_le)
  ultimately show ?thesis using Cons by simp
qed simp

text \<open>
  \<^verbatim>\<open>re.sub\<close> replaces the leftmost match, then continues after it; a character at which
  the pattern does not match is copied. The replacement text has no backslash and no
  group reference, so it is inserted as it is.
\<close>

function re_sub_undefined :: "string \<Rightarrow> string \<Rightarrow> string" where
  "re_sub_undefined repl [] = []"
| "re_sub_undefined repl (c # cs) =
     (case match_undefined (c # cs) of
        Some r \<Rightarrow> repl @ re_sub_undefined repl r
      | None \<Rightarrow> c # re_sub_undefined repl cs)"
  by pat_completeness auto
termination
  by (relation "measure (\<lambda>(repl, s). length s)")
     (auto dest!: match_undefined_shorter simp del: match_undefined.simps)

text \<open>
  The default value of the parameter \<^verbatim>\<open>undefined_placeholder\<close>, the only one the module
  passes. The \<^verbatim>\<open>try\<close> around \<^verbatim>\<open>return preprocessed_s\<close> cannot raise.
\<close>

definition undefined_placeholder :: string where
  \<open>undefined_placeholder = ''"<undefined>"''\<close>

definition replace_undefined :: "string \<Rightarrow> string" where
  "replace_undefined s = re_sub_undefined ('': '' @ undefined_placeholder) s"

subsection \<open>\<^verbatim>\<open>get_json_candidates\<close>: pyparsing's nested expression\<close>

text \<open>
  \<^verbatim>\<open>originalTextFor(nestedExpr("{", "}")).searchString(s)\<close>.
  \<^verbatim>\<open>searchString\<close> first replaces tabs by spaces (\<^verbatim>\<open>str.expandtabs\<close>, tab stops every 8
  columns, the column restarting after a line feed or a carriage return).
\<close>

fun expandtabs_from :: "nat \<Rightarrow> string \<Rightarrow> string" where
  "expandtabs_from j [] = []"
| "expandtabs_from j (c # cs) =
     (if c = CHR 0x09 then
        replicate (8 - j mod 8) (CHR '' '') @ expandtabs_from (j + (8 - j mod 8)) cs
      else if c = CHR 0x0A \<or> c = CHR 0x0D then c # expandtabs_from 0 cs
      else c # expandtabs_from (j + 1) cs)"

definition expandtabs :: "string \<Rightarrow> string" where
  "expandtabs s = expandtabs_from 0 s"

text \<open>pyparsing's default white space, skipped in front of every token.\<close>

definition pp_white :: "char \<Rightarrow> bool" where
  "pp_white c = (c = CHR '' '' \<or> c = CHR 0x0A \<or> c = CHR 0x09 \<or> c = CHR 0x0D)"

definition is_digit :: "char \<Rightarrow> bool" where
  "is_digit c = (CHR ''0'' \<le> c \<and> c \<le> CHR ''9'')"

definition is_hexdigit :: "char \<Rightarrow> bool" where
  "is_hexdigit c =
     (is_digit c \<or> (CHR ''a'' \<le> c \<and> c \<le> CHR ''f'') \<or> (CHR ''A'' \<le> c \<and> c \<le> CHR ''F''))"

text \<open>
  The expression that \<^verbatim>\<open>nestedExpr\<close> ignores is pyparsing's \<^verbatim>\<open>quotedString\<close>: an opening
  quote \<open>q\<close> (double or single), then the longest run of items matched by the regular
  expression \<^verbatim>\<open>(?:[^q\n\r\\]|(?:qq)|(?:\\(?:[^x]|x[0-9a-fA-F]+)))*\<close>, then a closing
  \<open>q\<close>. \<open>quoted_body q\<close> scans the text after the opening quote and returns the text
  after the closing one. After \<^verbatim>\<open>\x\<close> one hexadecimal digit must follow; it and the
  digits after it are then ordinary characters of the run.
\<close>

fun quoted_body :: "char \<Rightarrow> string \<Rightarrow> string option" where
  "quoted_body q [] = None"
| "quoted_body q [c] = (if c = q then Some [] else None)"
| "quoted_body q (c # d # cs) =
     (if c = q then (if d = q then quoted_body q cs else Some (d # cs))
      else if c = backslash then
        (if d = CHR ''x'' then
           (case cs of
              [] \<Rightarrow> None
            | e # es \<Rightarrow> if is_hexdigit e then quoted_body q cs else None)
         else quoted_body q cs)
      else if c = CHR 0x0A \<or> c = CHR 0x0D then None
      else quoted_body q (d # cs))"

fun quoted_string :: "string \<Rightarrow> string option" where
  "quoted_string [] = None"
| "quoted_string (c # cs) =
     (if c = CHR 0x22 \<or> c = CHR 0x27 then quoted_body c cs else None)"

lemma quoted_body_shorter: "quoted_body q s = Some r \<Longrightarrow> length r < length s"
  by (induction q s arbitrary: r rule: quoted_body.induct)
     (fastforce split: if_splits list.splits)+

lemma quoted_string_shorter: "quoted_string s = Some r \<Longrightarrow> length r < length s"
  by (cases s) (auto split: if_splits dest: quoted_body_shorter)

text \<open>
  \<^verbatim>\<open>nestedExpr("{", "}")\<close> is the grammar
  \<^verbatim>\<open>ret = "{" (quotedString | ret | content)* "}"\<close>, where \<^verbatim>\<open>content\<close> is a run of
  characters other than braces and white space at which no quoted string starts, and
  white space is skipped in front of every item. An inner \<^verbatim>\<open>ret\<close> that fails makes the
  outer one fail, since neither \<^verbatim>\<open>content\<close> nor the closing brace matches at an opening
  brace. So the match is one pass from the left with a counter of the braces open inside
  the outermost one: at each position a quoted string is skipped as a whole, an opening
  brace increments the counter, a closing brace decrements it or, at 0, ends the match,
  and any other character is passed over. The result is the text after the match; the end
  of the text before the outermost closing brace is a failure.
\<close>

function nested_body :: "nat \<Rightarrow> string \<Rightarrow> string option" where
  "nested_body d [] = None"
| "nested_body d (c # cs) =
     (case quoted_string (c # cs) of
        Some r \<Rightarrow> nested_body d r
      | None \<Rightarrow>
          if c = CHR ''{'' then nested_body (Suc d) cs
          else if c = CHR ''}'' then (case d of 0 \<Rightarrow> Some cs | Suc d' \<Rightarrow> nested_body d' cs)
          else nested_body d cs)"
  by pat_completeness auto
termination
  by (relation "measure (\<lambda>(d, s). length s)")
     (auto dest!: quoted_string_shorter simp del: quoted_string.simps)

fun nested_expr :: "string \<Rightarrow> string option" where
  "nested_expr [] = None"
| "nested_expr (c # cs) = (if c = CHR ''{'' then nested_body 0 cs else None)"

lemma nested_body_shorter: "nested_body d s = Some r \<Longrightarrow> length r < length s"
proof (induction d s arbitrary: r rule: nested_body.induct)
  case (2 d c cs)
  show ?case
  proof (cases "quoted_string (c # cs)")
    case (Some q)
    then have "nested_body d q = Some r" using "2.prems" by simp
    from "2.IH"(4)[OF Some this] quoted_string_shorter[OF Some] show ?thesis by simp
  next
    case None
    show ?thesis
    proof (cases "c = CHR ''{''")
      case True
      then have "nested_body (Suc d) cs = Some r" using "2.prems" None by simp
      from "2.IH"(1)[OF None True this] show ?thesis by simp
    next
      case False
      show ?thesis
      proof (cases "c = CHR ''}''")
        case c: True
        show ?thesis
        proof (cases d)
          case 0
          then show ?thesis using "2.prems" None False c by simp
        next
          case (Suc d')
          then have "nested_body d' cs = Some r" using "2.prems" None False c by simp
          from "2.IH"(2)[OF None False c Suc this] show ?thesis by simp
        qed
      next
        case c: False
        then have "nested_body d cs = Some r" using "2.prems" None False by simp
        from "2.IH"(3)[OF None False c this] show ?thesis by simp
      qed
    qed
  qed
qed simp

lemma nested_expr_shorter: "nested_expr s = Some r \<Longrightarrow> length r < length s"
  by (cases s) (auto split: if_splits dest: nested_body_shorter)

text \<open>
  \<^verbatim>\<open>scanString\<close>: at each position white space is skipped and the expression is tried;
  after a match the scan continues behind it, after a failure one character further.
  \<^verbatim>\<open>originalTextFor\<close> yields the matched text, from the opening brace to the closing one.
\<close>

function scan_string :: "string \<Rightarrow> string list" where
  "scan_string [] = []"
| "scan_string (c # cs) =
     (if pp_white c then scan_string cs
      else case nested_expr (c # cs) of
             Some r \<Rightarrow> take (length (c # cs) - length r) (c # cs) # scan_string r
           | None \<Rightarrow> scan_string cs)"
  by pat_completeness auto
termination
  by (relation "measure length") (auto dest!: nested_expr_shorter simp del: nested_expr.simps)

text \<open>
  The \<^verbatim>\<open>except Exception\<close> of the source catches what pyparsing raises; in the model the
  scan raises nothing.
\<close>

definition get_json_candidates :: "string \<Rightarrow> string list" where
  "get_json_candidates s = scan_string (expandtabs s)"

subsection \<open>\<^verbatim>\<open>json.loads\<close>\<close>

text \<open>
  The values that \<^verbatim>\<open>json.loads\<close> returns. A decoded string is a list of code points
  (\<^verbatim>\<open>\uXXXX\<close> escapes reach beyond 255). A \<^verbatim>\<open>float\<close> is kept as the literal it was read
  from, or as one of the three constants; its numeric value is not modelled. A \<^verbatim>\<open>dict\<close>
  is an association list in insertion order with distinct keys.
\<close>

type_synonym ustr = "nat list"

definition ustr_of :: "string \<Rightarrow> ustr" where
  "ustr_of s = map of_char s"

datatype pyfloat = FloatLit string | FloatNaN | FloatInf | FloatNegInf

datatype pyval = PyNone | PyBool bool | PyInt int | PyFloat pyfloat | PyStr ustr
  | PyList "pyval list" | PyDict "(ustr \<times> pyval) list"

text \<open>\<^verbatim>\<open>JSONDecodeError\<close> is a subclass of \<^verbatim>\<open>ValueError\<close>; the other two are not.\<close>

datatype py_exception = JSONDecodeError | TypeError | KeyError

fun is_ValueError :: "py_exception \<Rightarrow> bool" where
  "is_ValueError JSONDecodeError = True"
| "is_ValueError TypeError = False"
| "is_ValueError KeyError = False"

text \<open>\<^verbatim>\<open>WHITESPACE = re.compile(r'[ \t\n\r]*')\<close> of \<^verbatim>\<open>json/decoder.py\<close>.\<close>

definition json_ws :: "char \<Rightarrow> bool" where
  "json_ws c = (c = CHR '' '' \<or> c = CHR 0x09 \<or> c = CHR 0x0A \<or> c = CHR 0x0D)"

definition skip_ws :: "string \<Rightarrow> string" where
  "skip_ws s = dropWhile json_ws s"

definition hexval :: "char \<Rightarrow> nat" where
  "hexval c =
     (if is_digit c then of_char c - 48
      else if CHR ''a'' \<le> c \<and> c \<le> CHR ''f'' then of_char c - 87
      else of_char c - 55)"

text \<open>The four hexadecimal digits of a \<^verbatim>\<open>\uXXXX\<close> escape, as the C scanner reads them.\<close>

fun decode_uXXXX :: "string \<Rightarrow> (nat \<times> string) option" where
  "decode_uXXXX (a # b # c # d # r) =
     (if is_hexdigit a \<and> is_hexdigit b \<and> is_hexdigit c \<and> is_hexdigit d
      then Some (((hexval a * 16 + hexval b) * 16 + hexval c) * 16 + hexval d, r)
      else None)"
| "decode_uXXXX s = None"

definition BACKSLASH :: "char \<Rightarrow> nat option" where
  "BACKSLASH e =
     (if e = CHR 0x22 then Some 0x22 else if e = backslash then Some 0x5C
      else if e = CHR ''/'' then Some 0x2F else if e = CHR ''b'' then Some 8
      else if e = CHR ''f'' then Some 12 else if e = CHR ''n'' then Some 10
      else if e = CHR ''r'' then Some 13 else if e = CHR ''t'' then Some 9
      else None)"

fun cons_result :: "'a \<Rightarrow> ('a list \<times> string) option \<Rightarrow> ('a list \<times> string) option" where
  "cons_result x None = None"
| "cons_result x (Some (xs, r)) = Some (x # xs, r)"

lemma decode_uXXXX_shorter: "decode_uXXXX s = Some (u, r) \<Longrightarrow> length r < length s"
  by (cases s rule: decode_uXXXX.cases) (auto split: if_splits)

text \<open>
  \<^verbatim>\<open>scanstring(s, end)\<close> in strict mode, on the text after the opening quote: the decoded
  string and the text after the closing quote, or \<open>None\<close> where the decoder raises
  \<^verbatim>\<open>JSONDecodeError\<close> (unterminated string, control character, invalid escape). A high
  surrogate followed by an escaped low surrogate is one code point.
\<close>

function scanstring :: "string \<Rightarrow> (ustr \<times> string) option" where
  "scanstring [] = None"
| "scanstring (c # cs) =
     (if c = CHR 0x22 then Some ([], cs)
      else if c \<noteq> backslash then
        (if (of_char c :: nat) < 0x20 then None
         else cons_result (of_char c) (scanstring cs))
      else
        (case cs of
           [] \<Rightarrow> None
         | esc # es \<Rightarrow>
             if esc \<noteq> CHR ''u'' then
               (case BACKSLASH esc of
                  None \<Rightarrow> None
                | Some ch \<Rightarrow> cons_result ch (scanstring es))
             else
               (case decode_uXXXX es of
                  None \<Rightarrow> None
                | Some (uni, r) \<Rightarrow>
                    if 0xD800 \<le> uni \<and> uni \<le> 0xDBFF \<and> prefix [backslash, CHR ''u''] r then
                      (case decode_uXXXX (drop 2 r) of
                         None \<Rightarrow> None
                       | Some (uni2, r2) \<Rightarrow>
                           if 0xDC00 \<le> uni2 \<and> uni2 \<le> 0xDFFF
                           then cons_result (0x10000 + ((uni - 0xD800) * 1024 + (uni2 - 0xDC00)))
                                  (scanstring r2)
                           else cons_result uni (scanstring r))
                    else cons_result uni (scanstring r))))"
  by pat_completeness auto
termination
  by (relation "measure length")
     (auto dest!: decode_uXXXX_shorter simp del: decode_uXXXX.simps)

lemma cons_result_Some:
  "cons_result x p = Some (ys, r) \<longleftrightarrow> (\<exists>xs. p = Some (xs, r) \<and> ys = x # xs)"
  by (cases p) auto

lemma scanstring_shorter: "scanstring s = Some (k, r) \<Longrightarrow> length r < length s"
proof (induction s arbitrary: k r rule: scanstring.induct)
  case (2 c cs)
  show ?case
  proof (cases "c = CHR 0x22")
    case True
    then show ?thesis using "2.prems" by simp
  next
    case nq: False
    show ?thesis
    proof (cases "c = backslash")
      case False
      then obtain xs where "scanstring cs = Some (xs, r)" and "\<not> (of_char c :: nat) < 0x20"
        using "2.prems" nq by (auto simp: cons_result_Some split: if_splits)
      from "2.IH"(1)[OF nq False this(2) this(1)] show ?thesis by simp
    next
      case True
      then obtain esc es where cs: "cs = esc # es"
        using "2.prems" nq by (cases cs) auto
      show ?thesis
      proof (cases "esc = CHR ''u''")
        case False
        then obtain ch xs where ch: "BACKSLASH esc = Some ch" and "scanstring es = Some (xs, r)"
          using "2.prems" nq True cs by (auto simp: cons_result_Some split: option.splits)
        from "2.IH"(2)[OF nq _ cs False ch this(2)] True show ?thesis using cs by simp
      next
        case u: True
        then obtain uni r1 where d1: "decode_uXXXX es = Some (uni, r1)"
          using "2.prems" nq True cs by (auto split: option.splits simp del: decode_uXXXX.simps)
        note l1 = decode_uXXXX_shorter[OF d1]
        show ?thesis
        proof (cases "0xD800 \<le> uni \<and> uni \<le> 0xDBFF \<and> prefix [backslash, CHR ''u''] r1")
          case sur: True
          then obtain uni2 r2 where d2: "decode_uXXXX (drop 2 r1) = Some (uni2, r2)"
            using "2.prems" nq True cs u d1
            by (auto split: option.splits simp del: decode_uXXXX.simps)
          note l2 = decode_uXXXX_shorter[OF d2]
          show ?thesis
          proof (cases "0xDC00 \<le> uni2 \<and> uni2 \<le> 0xDFFF")
            case lo: True
            then obtain xs where "scanstring r2 = Some (xs, r)"
              using "2.prems" nq True cs u d1 sur d2
              by (auto simp: cons_result_Some simp del: decode_uXXXX.simps)
            from "2.IH"(3)[OF nq _ cs _ d1 refl sur d2 refl lo this] True u
            show ?thesis using cs l1 l2 by simp
          next
            case lo: False
            then obtain xs where "scanstring r1 = Some (xs, r)"
              using "2.prems" nq True cs u d1 sur d2
              by (auto simp: cons_result_Some simp del: decode_uXXXX.simps)
            from "2.IH"(4)[OF nq _ cs _ d1 refl sur d2 refl lo this] True u
            show ?thesis using cs l1 l2 by simp
          qed
        next
          case sur: False
          then obtain xs where "scanstring r1 = Some (xs, r)"
            using "2.prems" nq True cs u d1
            by (auto simp: cons_result_Some simp del: decode_uXXXX.simps)
          from "2.IH"(5)[OF nq _ cs _ d1 refl sur this] True u
          show ?thesis using cs l1 by simp
        qed
      qed
    qed
  qed
qed simp

text \<open>
  \<^verbatim>\<open>NUMBER_RE = (-?(?:0|[1-9]\d*))(\.\d+)?([eE][-+]?\d+)?\<close> of \<^verbatim>\<open>json/scanner.py\<close>,
  group by group; below 256 the digits of \<^verbatim>\<open>\d\<close> are \<^verbatim>\<open>0\<close> to \<^verbatim>\<open>9\<close>.
\<close>

definition match_digits :: "string \<Rightarrow> (string \<times> string) option" where
  "match_digits s =
     (case s of
        [] \<Rightarrow> None
      | d # ds \<Rightarrow> if is_digit d then Some (d # takeWhile is_digit ds, dropWhile is_digit ds)
                 else None)"

definition match_integer :: "string \<Rightarrow> (string \<times> string) option" where
  "match_integer s =
     (let (sg, t) = (case s of [] \<Rightarrow> ([], s)
                     | c # t \<Rightarrow> if c = CHR ''-'' then ([c], t) else ([], s))
      in case t of
           [] \<Rightarrow> None
         | d # ds \<Rightarrow>
             if d = CHR ''0'' then Some (sg @ [d], ds)
             else if is_digit d then Some (sg @ d # takeWhile is_digit ds, dropWhile is_digit ds)
             else None)"

definition match_frac :: "string \<Rightarrow> string \<times> string" where
  "match_frac s =
     (case s of
        [] \<Rightarrow> ([], s)
      | c # t \<Rightarrow>
          if c = CHR ''.'' then
            (case match_digits t of None \<Rightarrow> ([], s) | Some (ds, r) \<Rightarrow> (c # ds, r))
          else ([], s))"

definition match_exp :: "string \<Rightarrow> string \<times> string" where
  "match_exp s =
     (case s of
        [] \<Rightarrow> ([], s)
      | c # t \<Rightarrow>
          if c = CHR ''e'' \<or> c = CHR ''E'' then
            (let (sg, u) = (case t of [] \<Rightarrow> ([], t)
                            | x # u \<Rightarrow> if x = CHR ''-'' \<or> x = CHR ''+'' then ([x], u)
                                       else ([], t))
             in case match_digits u of None \<Rightarrow> ([], s) | Some (ds, r) \<Rightarrow> (c # sg @ ds, r))
          else ([], s))"

definition match_number :: "string \<Rightarrow> (string \<times> string \<times> string \<times> string) option" where
  "match_number s =
     (case match_integer s of
        None \<Rightarrow> None
      | Some (i, r1) \<Rightarrow>
          (let (f, r2) = match_frac r1; (e, r3) = match_exp r2 in Some (i, f, e, r3)))"

definition int_of_digits :: "string \<Rightarrow> int" where
  "int_of_digits ds = foldl (\<lambda>a d. 10 * a + int (of_char d - 48)) 0 ds"

definition parse_int :: "string \<Rightarrow> int" where
  "parse_int s =
     (case s of
        [] \<Rightarrow> 0
      | c # t \<Rightarrow> if c = CHR ''-'' then - int_of_digits t else int_of_digits s)"

text \<open>\<^verbatim>\<open>dict(pairs)\<close>: a later pair with the same key replaces the value, in place.\<close>

fun dict_update :: "ustr \<Rightarrow> pyval \<Rightarrow> (ustr \<times> pyval) list \<Rightarrow> (ustr \<times> pyval) list" where
  "dict_update k v [] = [(k, v)]"
| "dict_update k v (p # ps) = (if fst p = k then (k, v) # ps else p # dict_update k v ps)"

definition dict :: "(ustr \<times> pyval) list \<Rightarrow> (ustr \<times> pyval) list" where
  "dict pairs = foldl (\<lambda>d (k, v). dict_update k v d) [] pairs"

text \<open>
  The scanner of \<^verbatim>\<open>json/scanner.py\<close> with \<^verbatim>\<open>JSONObject\<close> and \<^verbatim>\<open>JSONArray\<close> of
  \<^verbatim>\<open>json/decoder.py\<close>. Each function takes the text from the current index on and returns
  the value with the text from the new index on; \<open>None\<close> stands for the
  \<^verbatim>\<open>JSONDecodeError\<close> (or the \<^verbatim>\<open>StopIteration\<close> that the callers turn into one).
  \<open>parse_constant\<close> is the hook of the same name, called on \<^verbatim>\<open>NaN\<close>,
  \<^verbatim>\<open>Infinity\<close> and \<^verbatim>\<open>-Infinity\<close>; where it returns \<open>None\<close> it raises.
  The two \<^verbatim>\<open>while True\<close> loops are \<open>JSONObject_loop\<close> (entered after the opening quote
  of a key) and \<open>JSONArray_loop\<close>. Each loop tests that its call of \<open>scan_once\<close> has
  consumed a character; the test always succeeds (lemma \<open>scan_once_shorter\<close> below) and
  only serves the termination proof.
\<close>

lemma skip_ws_length: "length (skip_ws s) \<le> length s"
  by (simp add: skip_ws_def length_dropWhile_le)

lemma skip_ws_Cons_length: "skip_ws s = c # r \<Longrightarrow> length r < length s"
  using skip_ws_length[of s] by simp

function scan_once :: "(string \<Rightarrow> pyval option) \<Rightarrow> string \<Rightarrow> (pyval \<times> string) option"
  and JSONObject :: "(string \<Rightarrow> pyval option) \<Rightarrow> string \<Rightarrow> ((ustr \<times> pyval) list \<times> string) option"
  and JSONObject_loop :: "(string \<Rightarrow> pyval option) \<Rightarrow> string \<Rightarrow> ((ustr \<times> pyval) list \<times> string) option"
  and JSONArray :: "(string \<Rightarrow> pyval option) \<Rightarrow> string \<Rightarrow> (pyval list \<times> string) option"
  and JSONArray_loop :: "(string \<Rightarrow> pyval option) \<Rightarrow> string \<Rightarrow> (pyval list \<times> string) option"
where
  "scan_once parse_constant [] = None"
| "scan_once parse_constant (c # cs) =
     (if c = CHR 0x22 then
        (case scanstring cs of None \<Rightarrow> None | Some (str, r) \<Rightarrow> Some (PyStr str, r))
      else if c = CHR ''{'' then
        (case JSONObject parse_constant cs of
           None \<Rightarrow> None
         | Some (pairs, r) \<Rightarrow> Some (PyDict (dict pairs), r))
      else if c = CHR ''['' then
        (case JSONArray parse_constant cs of
           None \<Rightarrow> None
         | Some (values, r) \<Rightarrow> Some (PyList values, r))
      else if c = CHR ''n'' \<and> prefix ''null'' (c # cs) then Some (PyNone, drop 4 (c # cs))
      else if c = CHR ''t'' \<and> prefix ''true'' (c # cs) then Some (PyBool True, drop 4 (c # cs))
      else if c = CHR ''f'' \<and> prefix ''false'' (c # cs) then Some (PyBool False, drop 5 (c # cs))
      else
        (case match_number (c # cs) of
           Some (integer, frac, exp, r) \<Rightarrow>
             if frac \<noteq> [] \<or> exp \<noteq> [] then Some (PyFloat (FloatLit (integer @ frac @ exp)), r)
             else Some (PyInt (parse_int integer), r)
         | None \<Rightarrow>
             if c = CHR ''N'' \<and> prefix ''NaN'' (c # cs) then
               (case parse_constant ''NaN'' of
                  None \<Rightarrow> None | Some v \<Rightarrow> Some (v, drop 3 (c # cs)))
             else if c = CHR ''I'' \<and> prefix ''Infinity'' (c # cs) then
               (case parse_constant ''Infinity'' of
                  None \<Rightarrow> None | Some v \<Rightarrow> Some (v, drop 8 (c # cs)))
             else if c = CHR ''-'' \<and> prefix ''-Infinity'' (c # cs) then
               (case parse_constant ''-Infinity'' of
                  None \<Rightarrow> None | Some v \<Rightarrow> Some (v, drop 9 (c # cs)))
             else None))"
| "JSONObject parse_constant s =
     (case skip_ws s of
        [] \<Rightarrow> None
      | nextchar # r \<Rightarrow>
          if nextchar = CHR ''}'' then Some ([], r)
          else if nextchar = CHR 0x22 then JSONObject_loop parse_constant r
          else None)"
| "JSONObject_loop parse_constant s =
     (case scanstring s of
        None \<Rightarrow> None
      | Some (key, r1) \<Rightarrow>
          (case skip_ws r1 of
             [] \<Rightarrow> None
           | colon # r2 \<Rightarrow>
               if colon \<noteq> CHR '':'' then None
               else
                 (case scan_once parse_constant (skip_ws r2) of
                    None \<Rightarrow> None
                  | Some (val, r3) \<Rightarrow>
                      if \<not> length r3 < length (skip_ws r2) then None
                      else
                        (case skip_ws r3 of
                           [] \<Rightarrow> None
                         | nextchar # r4 \<Rightarrow>
                             if nextchar = CHR ''}'' then Some ([(key, val)], r4)
                             else if nextchar \<noteq> CHR '','' then None
                             else
                               (case skip_ws r4 of
                                  [] \<Rightarrow> None
                                | q # r5 \<Rightarrow>
                                    if q \<noteq> CHR 0x22 then None
                                    else cons_result (key, val)
                                           (JSONObject_loop parse_constant r5))))))"
| "JSONArray parse_constant s =
     (case skip_ws s of
        [] \<Rightarrow> None
      | nextchar # r \<Rightarrow>
          if nextchar = CHR '']'' then Some ([], r)
          else JSONArray_loop parse_constant (nextchar # r))"
| "JSONArray_loop parse_constant s =
     (case scan_once parse_constant s of
        None \<Rightarrow> None
      | Some (val, r1) \<Rightarrow>
          if \<not> length r1 < length s then None
          else
            (case skip_ws r1 of
               [] \<Rightarrow> None
             | nextchar # r2 \<Rightarrow>
                 if nextchar = CHR '']'' then Some ([val], r2)
                 else if nextchar \<noteq> CHR '','' then None
                 else cons_result val (JSONArray_loop parse_constant (skip_ws r2))))"
  by pat_completeness auto

termination
  apply (relation "measure (\<lambda>x. case x of
            Inl (Inl (pc, s)) \<Rightarrow> 3 * length s
          | Inl (Inr (pc, s)) \<Rightarrow> 3 * length s + 2
          | Inr (Inl (pc, s)) \<Rightarrow> 3 * length s + 1
          | Inr (Inr (Inl (pc, s))) \<Rightarrow> 3 * length s + 2
          | Inr (Inr (Inr (pc, s))) \<Rightarrow> 3 * length s + 1)")
  apply simp_all
  subgoal for s x21 x22
    using skip_ws_Cons_length[of s "CHR 0x22" x22] by simp
  subgoal for s x2 x y x21 x22
    using scanstring_shorter[of s x y] skip_ws_Cons_length[of y "CHR '':''" x22]
      skip_ws_length[of x22] by simp
  subgoal for pc s x2 x y x21 x22 x2a xa ya x21a x22a x21b x22b
    using scanstring_shorter[of s x y] skip_ws_Cons_length[of y "CHR '':''" x22]
      skip_ws_length[of x22] skip_ws_Cons_length[of ya "CHR '',''" x22a]
      skip_ws_Cons_length[of x22a "CHR 0x22" x22b] by simp
  subgoal for s x21 x22
    using skip_ws_Cons_length[of s x21 x22] by simp
  subgoal for pc s x2 x y x21 x22
    using skip_ws_Cons_length[of y "CHR '',''" x22] skip_ws_length[of x22] by simp
  done

declare scan_once.simps [simp del] JSONObject.simps [simp del] JSONObject_loop.simps [simp del]
  JSONArray.simps [simp del] JSONArray_loop.simps [simp del]

text \<open>
  \<^verbatim>\<open>json.loads(s)\<close> with the default decoder: white space, one value, white space, the end
  of the text. The default \<^verbatim>\<open>parse_constant\<close> looks the name up in \<^verbatim>\<open>_CONSTANTS\<close>.
  (The check for a leading byte order mark concerns the code point 65279 only.)
\<close>

definition decode :: "(string \<Rightarrow> pyval option) \<Rightarrow> string \<Rightarrow> py_exception + pyval" where
  "decode parse_constant s =
     (case scan_once parse_constant (skip_ws s) of
        None \<Rightarrow> Inl JSONDecodeError
      | Some (obj, r) \<Rightarrow> if skip_ws r \<noteq> [] then Inl JSONDecodeError else Inr obj)"

definition CONSTANTS :: "string \<Rightarrow> pyval option" where
  "CONSTANTS name =
     (if name = ''-Infinity'' then Some (PyFloat FloatNegInf)
      else if name = ''Infinity'' then Some (PyFloat FloatInf)
      else if name = ''NaN'' then Some (PyFloat FloatNaN)
      else None)"

definition json_loads :: "string \<Rightarrow> py_exception + pyval" where
  "json_loads s = decode CONSTANTS s"

subsection \<open>The functions of the module\<close>

text \<open>\<^verbatim>\<open>is_valid_json\<close>: an exception that is no \<^verbatim>\<open>ValueError\<close> would propagate.\<close>

definition is_valid_json :: "string \<Rightarrow> py_exception + bool" where
  "is_valid_json json_str =
     (case json_loads json_str of
        Inr v \<Rightarrow> Inr True
      | Inl e \<Rightarrow> if is_ValueError e then Inr False else Inl e)"

text \<open>The filter \<^verbatim>\<open>[candidate for candidate in candidates if is_valid_json(candidate)]\<close>.\<close>

fun filter_valid :: "string list \<Rightarrow> py_exception + string list" where
  "filter_valid [] = Inr []"
| "filter_valid (candidate # candidates) =
     (case is_valid_json candidate of
        Inl e \<Rightarrow> Inl e
      | Inr ok \<Rightarrow>
          (case filter_valid candidates of
             Inl e \<Rightarrow> Inl e
           | Inr rest \<Rightarrow> Inr (if ok then candidate # rest else rest)))"

definition extract_top_level_json :: "string \<Rightarrow> py_exception + string list" where
  "extract_top_level_json s =
     (let json_candidates = get_json_candidates s;
          normalized_candidates = map normalize_candidate json_candidates;
          candidates = map replace_undefined normalized_candidates
      in filter_valid candidates)"

text \<open>
  \<^verbatim>\<open>f in json_data\<close> and \<^verbatim>\<open>json_data[f]\<close> for a string \<^verbatim>\<open>f\<close>, on each kind of value that
  \<^verbatim>\<open>json.loads\<close> can return: a key of a \<^verbatim>\<open>dict\<close>, an element of a \<^verbatim>\<open>list\<close>, a substring
  of a \<^verbatim>\<open>str\<close>; the other values are not iterable, and only a \<^verbatim>\<open>dict\<close> is indexed by a
  string.
\<close>

fun py_contains :: "ustr \<Rightarrow> pyval \<Rightarrow> py_exception + bool" where
  "py_contains f (PyDict d) = Inr (f \<in> fst ` set d)"
| "py_contains f (PyList xs) = Inr (PyStr f \<in> set xs)"
| "py_contains f (PyStr t) = Inr (occurs_in f t)"
| "py_contains f v = Inl TypeError"

fun py_getitem :: "pyval \<Rightarrow> ustr \<Rightarrow> py_exception + pyval" where
  "py_getitem (PyDict d) f = (case map_of d f of None \<Rightarrow> Inl KeyError | Some v \<Rightarrow> Inr v)"
| "py_getitem v f = Inl TypeError"

text \<open>The \<^verbatim>\<open>for j in jsons\<close> loop of \<^verbatim>\<open>top_level_json_field\<close>, then the function.\<close>

fun field_loop :: "string list \<Rightarrow> ustr \<Rightarrow> py_exception + pyval" where
  "field_loop [] f = Inr (PyStr [])"
| "field_loop (j # jsons) f =
     (case json_loads j of
        Inl e \<Rightarrow> Inl e
      | Inr json_data \<Rightarrow>
          (case py_contains f json_data of
             Inl e \<Rightarrow> Inl e
           | Inr found \<Rightarrow> if found then py_getitem json_data f else field_loop jsons f))"

definition top_level_json_field :: "string \<Rightarrow> string \<Rightarrow> py_exception + pyval" where
  "top_level_json_field s f =
     (case extract_top_level_json s of
        Inl e \<Rightarrow> Inl e
      | Inr jsons \<Rightarrow> if length jsons = 0 then Inr (PyStr []) else field_loop jsons (ustr_of f))"

subsection \<open>Auxiliary notions for the statements and proofs\<close>



text \<open>
  One replacement pass for a two-character escape, and the occurrence of a pair \<open>a b\<close> or
  of a triple \<open>a a b\<close> of adjacent characters.
\<close>

fun unesc :: "char \<Rightarrow> char \<Rightarrow> string \<Rightarrow> string" where
  "unesc b x (c # d # cs) = (if c = b \<and> d = x then x # unesc b x cs else c # unesc b x (d # cs))"
| "unesc b x cs = cs"

fun has_pair :: "char \<Rightarrow> char \<Rightarrow> string \<Rightarrow> bool" where
  "has_pair a b (c # d # cs) = ((c = a \<and> d = b) \<or> has_pair a b (d # cs))"
| "has_pair a b cs = False"

fun has_triple :: "char \<Rightarrow> char \<Rightarrow> string \<Rightarrow> bool" where
  "has_triple a b (c # d # e # cs) = ((c = a \<and> d = a \<and> e = b) \<or> has_triple a b (d # e # cs))"
| "has_triple a b cs = False"

text \<open>
  The characters that the quoted-string expression passes over one by one inside double
  quotes: any character but the quote itself, the backslash, the line feed and the
  carriage return.
\<close>

definition qordinary :: "char \<Rightarrow> bool" where
  "qordinary c = (c \<noteq> CHR 0x22 \<and> c \<noteq> backslash \<and> c \<noteq> CHR 0x0A \<and> c \<noteq> CHR 0x0D)"

text \<open>
  The specification of \<^verbatim>\<open>top_level_json_field\<close> in its own words: the value bound to the key at
  the top level of one candidate (none when the candidate is no object or the object has no
  such key), and the value of the first candidate of a list that has one, the empty string
  when there is none.
\<close>

definition spec_top_level_value :: "ustr \<Rightarrow> string \<Rightarrow> pyval option" where
  "spec_top_level_value f j =
     (case json_loads j of
        Inr (PyDict d) \<Rightarrow> map_of d f
      | _ \<Rightarrow> None)"

fun spec_first_match :: "ustr \<Rightarrow> string list \<Rightarrow> pyval" where
  "spec_first_match f [] = PyStr []"
| "spec_first_match f (j # jsons) =
     (case spec_top_level_value f j of Some v \<Rightarrow> v | None \<Rightarrow> spec_first_match f jsons)"

section \<open>Properties\<close>

subsection \<open>Normalization\<close>

lemma str_replace_unesc: "str_replace [b, x] [x] s = unesc b x s"
  by (induction b x s rule: unesc.induct) auto

lemma occurs_in_pair: "occurs_in [a, b] s = has_pair a b s"
  by (induction a b s rule: has_pair.induct) auto

lemma occurs_in_triple: "occurs_in [a, a, b] s = has_triple a b s"
  by (induction a b s rule: has_triple.induct) auto

lemma unesc_id: "\<not> has_pair b x s \<Longrightarrow> unesc b x s = s"
  by (induction b x s rule: unesc.induct) auto

lemma unesc_length: "length (unesc b x s) \<le> length s"
  by (induction b x s rule: unesc.induct) auto

lemma unesc_shorter: "has_pair b x s \<Longrightarrow> length (unesc b x s) < length s"
proof (induction b x s rule: unesc.induct)
  case (1 b x c d cs)
  then show ?case using unesc_length[of b x cs] by (auto simp: less_Suc_eq_le)
qed auto

lemma unesc_hd: "unesc b x s = [] \<longleftrightarrow> s = []"
  by (induction b x s rule: unesc.induct) auto


lemma has_pair_Cons: "has_pair a y s \<Longrightarrow> has_pair a y (c # s)"
  by (cases s) auto

lemma has_triple_Cons: "has_triple a y s \<Longrightarrow> has_triple a y (c # s)"
  by (cases "(a, y, s)" rule: has_triple.cases) auto

lemma has_pair_step:
  "has_pair a y (c # cs) = (cs \<noteq> [] \<and> ((c = a \<and> hd cs = y) \<or> has_pair a y cs))"
  by (cases cs) auto

lemma unesc_hd_cases:
  "unesc b x s = h # t \<Longrightarrow> (\<exists>r. s = h # r) \<or> (h = x \<and> (\<exists>r. s = b # x # r))"
  by (cases "(b, x, s)" rule: unesc.cases) (auto split: if_splits)

lemma unesc_no_pair: "x \<noteq> b \<Longrightarrow> \<not> has_triple b x s \<Longrightarrow> \<not> has_pair b x (unesc b x s)"
proof (induction b x s rule: unesc.induct)
  case (1 b x c d cs)
  show ?case
  proof (cases "c = b \<and> d = x")
    case True
    have "\<not> has_triple b x cs" using 1(4) by (auto dest: has_triple_Cons)
    then have "\<not> has_pair b x (unesc b x cs)" using 1 True by simp
    then show ?thesis using True 1(3) by (simp add: has_pair_step)
  next
    case False
    have nt: "\<not> has_triple b x (d # cs)" using 1(4) by (auto dest: has_triple_Cons)
    then have ih: "\<not> has_pair b x (unesc b x (d # cs))" using 1 False by simp
    obtain h t where ht: "unesc b x (d # cs) = h # t"
      by (cases "unesc b x (d # cs)") (auto simp: unesc_hd)
    from unesc_hd_cases[OF ht] have "\<not> (c = b \<and> h = x)"
      using False 1(4) 1(3) by (auto)
    then show ?thesis using False ih ht by (auto simp: has_pair_step)
  qed
qed auto


lemma unesc_step:
  "unesc b x (d # cs) =
     (if d = b \<and> cs \<noteq> [] \<and> hd cs = x then x # unesc b x (tl cs) else d # unesc b x cs)"
  by (cases cs) auto

lemma has_triple_step:
  "has_triple a y (c # cs) =
     ((c = a \<and> (\<exists>r. cs = a # y # r)) \<or> has_triple a y cs)"
  by (cases "(a, y, c # cs)" rule: has_triple.cases) auto

lemma unesc_hd2:
  assumes "unesc b x s = h1 # h2 # t" "x \<noteq> h1" "x \<noteq> h2"
  shows "\<exists>r. s = h1 # h2 # r"
proof -
  from unesc_hd_cases[OF assms(1)] assms(2) obtain r where r: "s = h1 # r" by auto
  have "unesc b x (h1 # r) = h1 # unesc b x r"
    using assms(1,2) unfolding r by (subst unesc_step) (auto split: if_splits simp: unesc_step)
  then have "unesc b x r = h2 # t" using assms(1) r by simp
  from unesc_hd_cases[OF this] assms(3) obtain r' where "r = h2 # r'" by auto
  then show ?thesis using r by simp
qed

lemma unesc_keeps_no_pair:
  "y \<noteq> x \<Longrightarrow> \<not> has_pair a y s \<Longrightarrow> \<not> has_pair a y (unesc b x s)"
proof (induction b x s rule: unesc.induct)
  case (1 b x c d cs)
  show ?case
  proof (cases "c = b \<and> d = x")
    case True
    have np: "\<not> has_pair a y cs" using 1(4) by (auto dest: has_pair_Cons)
    then have ih: "\<not> has_pair a y (unesc b x cs)" using 1 True by simp
    show ?thesis
    proof (cases "unesc b x cs")
      case Nil
      then show ?thesis using True by simp
    next
      case (Cons h t)
      from unesc_hd_cases[OF Cons] have "\<not> (x = a \<and> h = y)"
        using 1(3,4) True by (auto simp: has_pair_step)
      then show ?thesis using True ih Cons by (auto simp: has_pair_step)
    qed
  next
    case False
    have "\<not> has_pair a y (d # cs)" using 1(4) by (auto dest: has_pair_Cons)
    then have ih: "\<not> has_pair a y (unesc b x (d # cs))" using 1 False by simp
    obtain h t where ht: "unesc b x (d # cs) = h # t"
      by (cases "unesc b x (d # cs)") (auto simp: unesc_hd)
    from unesc_hd_cases[OF ht] have "\<not> (c = a \<and> h = y)"
      using False 1(3,4) by auto
    then show ?thesis using False ih ht by (auto simp: has_pair_step)
  qed
qed auto

lemma unesc_keeps_no_triple:
  "x \<noteq> a \<Longrightarrow> y \<noteq> x \<Longrightarrow> \<not> has_triple a y s \<Longrightarrow> \<not> has_triple a y (unesc b x s)"
proof (induction b x s rule: unesc.induct)
  case (1 b x c d cs)
  show ?case
  proof (cases "c = b \<and> d = x")
    case True
    have "\<not> has_triple a y cs" using 1(5) by (auto dest: has_triple_Cons)
    then have ih: "\<not> has_triple a y (unesc b x cs)" using 1 True by simp
    show ?thesis using True ih 1(3) by (simp add: has_triple_step)
  next
    case False
    have "\<not> has_triple a y (d # cs)" using 1(5) by (auto dest: has_triple_Cons)
    then have ih: "\<not> has_triple a y (unesc b x (d # cs))" using 1 False by simp
    have "\<not> (c = a \<and> (\<exists>r. unesc b x (d # cs) = a # y # r))"
    proof
      assume h: "c = a \<and> (\<exists>r. unesc b x (d # cs) = a # y # r)"
      then obtain r where "unesc b x (d # cs) = a # y # r" by auto
      from unesc_hd2[OF this] 1(3,4) obtain r' where "d # cs = a # y # r'" by auto
      then show False using h 1(5) by auto
    qed
    moreover have "unesc b x (c # d # cs) = c # unesc b x (d # cs)" using False by auto
    ultimately show ?thesis using ih by (simp add: has_triple_step)
  qed
qed auto

lemma unesc_triple_pair:
  "x \<noteq> b \<Longrightarrow> has_triple b x s \<Longrightarrow> has_pair b x (unesc b x s)"
proof (induction b x s rule: unesc.induct)
  case (1 b x c d cs)
  show ?case
  proof (cases "c = b \<and> d = x")
    case True
    then have "has_triple b x cs" using 1(3,4) by (auto simp: has_triple_step)
    then have "has_pair b x (unesc b x cs)" using 1 True by simp
    then show ?thesis using True by (auto intro: has_pair_Cons)
  next
    case False
    show ?thesis
    proof (cases "c = b \<and> (\<exists>r. d # cs = b # x # r)")
      case True
      then show ?thesis using 1(3) by auto
    next
      case F2: False
      then have "has_triple b x (d # cs)" using 1(4) by (auto simp: has_triple_step)
      then have "has_pair b x (unesc b x (d # cs))" using 1 False by simp
      then show ?thesis using False by (auto intro: has_pair_Cons)
    qed
  qed
qed auto

lemma unesc_keeps_triple:
  "x \<noteq> b \<Longrightarrow> y \<noteq> x \<Longrightarrow> y \<noteq> b \<Longrightarrow> has_triple b y s \<Longrightarrow> has_triple b y (unesc b x s)"
proof (induction b x s rule: unesc.induct)
  case (1 b x c d cs)
  show ?case
  proof (cases "c = b \<and> d = x")
    case True
    then have "has_triple b y cs" using 1(3,4,5,6) by (auto simp: has_triple_step)
    then have "has_triple b y (unesc b x cs)" using 1 True by simp
    then show ?thesis using True by (auto intro: has_triple_Cons)
  next
    case False
    show ?thesis
    proof (cases "c = b \<and> (\<exists>r. d # cs = b # y # r)")
      case True
      then show ?thesis using 1(3,4,5) by (auto simp: unesc_step)
    next
      case F2: False
      then have "has_triple b y (d # cs)" using 1(6) by (auto simp: has_triple_step)
      then have "has_triple b y (unesc b x (d # cs))" using 1 False by simp
      then show ?thesis using False by (auto intro: has_triple_Cons)
    qed
  qed
qed auto

lemma unesc_keeps_pair:
  "x \<noteq> b \<Longrightarrow> y \<noteq> x \<Longrightarrow> y \<noteq> b \<Longrightarrow> has_pair b y s \<Longrightarrow> has_pair b y (unesc b x s)"
proof (induction b x s rule: unesc.induct)
  case (1 b x c d cs)
  show ?case
  proof (cases "c = b \<and> d = x")
    case True
    then have "has_pair b y cs" using 1(3,4,5,6) by (auto simp: has_pair_step)
    then have "has_pair b y (unesc b x cs)" using 1 True by simp
    then show ?thesis using True by (auto intro: has_pair_Cons)
  next
    case False
    show ?thesis
    proof (cases "c = b \<and> d = y")
      case True
      then show ?thesis using 1(3,4,5) by (auto simp: unesc_step)
    next
      case F2: False
      then have "has_pair b y (d # cs)" using 1(6) by auto
      then have "has_pair b y (unesc b x (d # cs))" using 1 False by simp
      then show ?thesis using False by (auto intro: has_pair_Cons)
    qed
  qed
qed auto


lemma bs_neq [simp]:
  "CHR ''{'' \<noteq> backslash" "CHR ''}'' \<noteq> backslash" "CHR ''_'' \<noteq> backslash"
  "backslash \<noteq> CHR ''{''" "backslash \<noteq> CHR ''}''" "backslash \<noteq> CHR ''_''"
  by (simp_all add: backslash_def)

lemma normalize_unesc:
  "normalize_candidate s =
     unesc backslash CHR ''_'' (unesc backslash CHR ''}'' (unesc backslash CHR ''{'' s))"
  by (simp add: normalize_candidate_def str_replace_unesc)

lemma normalize_fixed:
  assumes "\<not> has_pair backslash CHR ''{'' t" "\<not> has_pair backslash CHR ''}'' t"
    "\<not> has_pair backslash CHR ''_'' t"
  shows "normalize_candidate t = t"
  using assms by (simp add: normalize_unesc unesc_id)

lemma normalize_shrinks:
  assumes "has_pair backslash CHR ''{'' t \<or> has_pair backslash CHR ''}'' t
    \<or> has_pair backslash CHR ''_'' t"
  shows "length (normalize_candidate t) < length t"
proof -
  let ?t1 = "unesc backslash CHR ''{'' t"
  let ?t2 = "unesc backslash CHR ''}'' ?t1"
  let ?t3 = "unesc backslash CHR ''_'' ?t2"
  have l1: "length ?t1 \<le> length t" and l2: "length ?t2 \<le> length ?t1"
    and l3: "length ?t3 \<le> length ?t2" by (rule unesc_length)+
  consider (a) "has_pair backslash CHR ''{'' t"
    | (b) "has_pair backslash CHR ''}'' t" | (c) "has_pair backslash CHR ''_'' t"
    using assms by blast
  then have "length ?t3 < length t"
  proof cases
    case a
    from unesc_shorter[OF a] l2 l3 show ?thesis by linarith
  next
    case b
    then have "has_pair backslash CHR ''}'' ?t1" by (simp add: unesc_keeps_pair)
    from unesc_shorter[OF this] l1 l3 show ?thesis by linarith
  next
    case c
    then have "has_pair backslash CHR ''_'' ?t1" by (simp add: unesc_keeps_pair)
    then have "has_pair backslash CHR ''_'' ?t2" by (simp add: unesc_keeps_pair)
    from unesc_shorter[OF this] l1 l2 show ?thesis by linarith
  qed
  then show ?thesis by (simp add: normalize_unesc)
qed

lemma normalize_clean:
  assumes "\<not> has_triple backslash CHR ''{'' s" "\<not> has_triple backslash CHR ''}'' s"
    "\<not> has_triple backslash CHR ''_'' s"
  shows "\<not> has_pair backslash CHR ''{'' (normalize_candidate s)
       \<and> \<not> has_pair backslash CHR ''}'' (normalize_candidate s)
       \<and> \<not> has_pair backslash CHR ''_'' (normalize_candidate s)"
proof -
  let ?s1 = "unesc backslash CHR ''{'' s"
  let ?s2 = "unesc backslash CHR ''}'' ?s1"
  let ?s3 = "unesc backslash CHR ''_'' ?s2"
  have p1: "\<not> has_pair backslash CHR ''{'' ?s1" using assms(1) by (simp add: unesc_no_pair)
  have t1b: "\<not> has_triple backslash CHR ''}'' ?s1"
    using assms(2) by (simp add: unesc_keeps_no_triple)
  have t1c: "\<not> has_triple backslash CHR ''_'' ?s1"
    using assms(3) by (simp add: unesc_keeps_no_triple)
  have p2a: "\<not> has_pair backslash CHR ''{'' ?s2" using p1 by (simp add: unesc_keeps_no_pair)
  have p2b: "\<not> has_pair backslash CHR ''}'' ?s2" using t1b by (simp add: unesc_no_pair)
  have t2c: "\<not> has_triple backslash CHR ''_'' ?s2"
    using t1c by (simp add: unesc_keeps_no_triple)
  have "\<not> has_pair backslash CHR ''{'' ?s3" using p2a by (simp add: unesc_keeps_no_pair)
  moreover have "\<not> has_pair backslash CHR ''}'' ?s3"
    using p2b by (simp add: unesc_keeps_no_pair)
  moreover have "\<not> has_pair backslash CHR ''_'' ?s3" using t2c by (simp add: unesc_no_pair)
  ultimately show ?thesis by (simp add: normalize_unesc)
qed

lemma normalize_dirty:
  assumes "has_triple backslash CHR ''{'' s \<or> has_triple backslash CHR ''}'' s
    \<or> has_triple backslash CHR ''_'' s"
  shows "has_pair backslash CHR ''{'' (normalize_candidate s)
       \<or> has_pair backslash CHR ''}'' (normalize_candidate s)
       \<or> has_pair backslash CHR ''_'' (normalize_candidate s)"
proof -
  let ?s1 = "unesc backslash CHR ''{'' s"
  let ?s2 = "unesc backslash CHR ''}'' ?s1"
  let ?s3 = "unesc backslash CHR ''_'' ?s2"
  consider (a) "has_triple backslash CHR ''{'' s"
    | (b) "has_triple backslash CHR ''}'' s" | (c) "has_triple backslash CHR ''_'' s"
    using assms by blast
  then have "has_pair backslash CHR ''{'' ?s3 \<or> has_pair backslash CHR ''}'' ?s3
       \<or> has_pair backslash CHR ''_'' ?s3"
  proof cases
    case a
    then have "has_pair backslash CHR ''{'' ?s1" by (simp add: unesc_triple_pair)
    then have "has_pair backslash CHR ''{'' ?s2" by (simp add: unesc_keeps_pair)
    then have "has_pair backslash CHR ''{'' ?s3" by (simp add: unesc_keeps_pair)
    then show ?thesis by simp
  next
    case b
    then have "has_triple backslash CHR ''}'' ?s1" by (simp add: unesc_keeps_triple)
    then have "has_pair backslash CHR ''}'' ?s2" by (simp add: unesc_triple_pair)
    then have "has_pair backslash CHR ''}'' ?s3" by (simp add: unesc_keeps_pair)
    then show ?thesis by simp
  next
    case c
    then have "has_triple backslash CHR ''_'' ?s1" by (simp add: unesc_keeps_triple)
    then have "has_triple backslash CHR ''_'' ?s2" by (simp add: unesc_keeps_triple)
    then have "has_pair backslash CHR ''_'' ?s3" by (simp add: unesc_triple_pair)
    then show ?thesis by simp
  qed
  then show ?thesis by (simp add: normalize_unesc)
qed

text \<open>
  Claim C2, as stated (normalization is idempotent on every string), fails: on the three
  characters backslash, backslash, opening brace the first normalization leaves backslash,
  opening brace, and the second one removes that backslash too.
\<close>

theorem normalize_not_idempotent:
  "normalize_candidate (normalize_candidate [backslash, backslash, CHR ''{''])
     \<noteq> normalize_candidate [backslash, backslash, CHR ''{'']"
  by (simp add: normalize_candidate_def backslash_def)

text \<open>
  Claim C2, amended: normalizing twice gives the same string as normalizing once exactly
  when the string contains none of the three-character sequences backslash backslash
  \<^verbatim>\<open>{\<close>, backslash backslash \<^verbatim>\<open>}\<close>, backslash backslash \<^verbatim>\<open>_\<close>.
\<close>

theorem normalize_idempotent_iff:
  "normalize_candidate (normalize_candidate s) = normalize_candidate s \<longleftrightarrow>
     \<not> occurs_in [backslash, backslash, CHR ''{''] s
   \<and> \<not> occurs_in [backslash, backslash, CHR ''}''] s
   \<and> \<not> occurs_in [backslash, backslash, CHR ''_''] s"
proof (cases "has_triple backslash CHR ''{'' s \<or> has_triple backslash CHR ''}'' s
    \<or> has_triple backslash CHR ''_'' s")
  case True
  from normalize_shrinks[OF normalize_dirty[OF True]]
  have "normalize_candidate (normalize_candidate s) \<noteq> normalize_candidate s" by auto
  then show ?thesis using True by (simp add: occurs_in_triple)
next
  case False
  then have "normalize_candidate (normalize_candidate s) = normalize_candidate s"
    using normalize_clean[of s] by (intro normalize_fixed) simp_all
  then show ?thesis using False by (simp add: occurs_in_triple)
qed

theorem normalize_idempotent_iff_witness:
  "normalize_candidate (normalize_candidate [backslash, CHR ''{'', CHR ''a'', backslash, CHR ''_''])
     = normalize_candidate [backslash, CHR ''{'', CHR ''a'', backslash, CHR ''_'']
   \<and> \<not> occurs_in [backslash, backslash, CHR ''{''] [backslash, CHR ''{'', CHR ''a'', backslash, CHR ''_'']"
  using normalize_idempotent_iff[of "[backslash, CHR ''{'', CHR ''a'', backslash, CHR ''_'']"]
  by (simp add: backslash_def)

subsection \<open>The substitution of barewords\<close>

lemma match_undefined_append_colon:
  "match_undefined (s @ CHR '':'' # t) =
     (case match_undefined s of Some r \<Rightarrow> Some (r @ CHR '':'' # t) | None \<Rightarrow>
        (if s = [] then match_undefined (CHR '':'' # t) else None))"
proof (cases s)
  case Nil
  then show ?thesis by simp
next
  case (Cons c cs)
  have ns: "\<not> re_space CHR '':''" by (simp add: re_space_def)
  have ni: "\<not> ident_char CHR '':''" "\<not> ident_start CHR '':''"
    by (simp_all add: ident_char_def ident_start_def)
  show ?thesis
  proof (cases "c = CHR '':''")
    case False
    then show ?thesis using Cons by simp
  next
    case True
    have d: "dropWhile re_space (cs @ CHR '':'' # t) = dropWhile re_space cs @ CHR '':'' # t"
      using ns by (rule dropWhile_append3)
    show ?thesis
    proof (cases "dropWhile re_space cs")
      case Nil
      then have "dropWhile re_space (cs @ CHR '':'' # t) = CHR '':'' # t" using d by simp
      then have "match_undefined (s @ CHR '':'' # t) = None"
        using \<open>s = c # cs\<close> True ni by simp
      moreover have "match_undefined s = None" by (simp add: \<open>s = c # cs\<close> True Nil)
      ultimately show ?thesis using \<open>s = c # cs\<close> by simp
    next
      case (Cons d' ds)
      have "dropWhile ident_char (ds @ CHR '':'' # t) = dropWhile ident_char ds @ CHR '':'' # t"
        using ni(1) by (rule dropWhile_append3)
      then show ?thesis using \<open>s = c # cs\<close> True d Cons by simp
    qed
  qed
qed

lemma re_sub_append_colon:
  "re_sub_undefined repl (p @ CHR '':'' # t) =
     re_sub_undefined repl p @ re_sub_undefined repl (CHR '':'' # t)"
proof (induction repl p rule: re_sub_undefined.induct)
  case (1 repl)
  then show ?case by simp
next
  case (2 repl c cs)
  show ?case
  proof (cases "match_undefined (c # cs)")
    case None
    then have "match_undefined ((c # cs) @ CHR '':'' # t) = None"
      by (subst match_undefined_append_colon) simp
    then show ?thesis using None 2(1)[OF None] by simp
  next
    case (Some r)
    then have "match_undefined ((c # cs) @ CHR '':'' # t) = Some (r @ CHR '':'' # t)"
      by (subst match_undefined_append_colon) simp
    then show ?thesis using Some 2(2)[OF Some] by simp
  qed
qed

lemma match_undefined_colon: "match_undefined m = Some r \<Longrightarrow> \<exists>t. m = CHR '':'' # t"
  by (cases m) (auto split: if_splits)

lemma replace_undefined_at_match:
  assumes "match_undefined m = Some r"
  shows "replace_undefined (p @ m) =
           replace_undefined p @ '': '' @ undefined_placeholder @ replace_undefined r"
proof -
  from match_undefined_colon[OF assms] obtain t where m: "m = CHR '':'' # t" by blast
  have "re_sub_undefined repl m = repl @ re_sub_undefined repl r" for repl
    using assms unfolding m by simp
  then show ?thesis unfolding replace_undefined_def
    by (simp add: m re_sub_append_colon del: match_undefined.simps)
qed

lemma match_undefined_word:
  assumes "\<forall>c \<in> set ws. re_space c" "w \<noteq> []" "ident_start (hd w)" "\<forall>c \<in> set w. ident_char c"
    "rest = [] \<or> \<not> ident_char (hd rest)"
  shows "match_undefined (CHR '':'' # ws @ w @ rest) = Some rest"
proof -
  obtain d ds where w: "w = d # ds" using assms(2) by (cases w) auto
  have "\<not> re_space d" using assms(3) w
    by (auto simp: re_space_def ident_start_def less_eq_char_def)
  then have "dropWhile re_space (ws @ w @ rest) = d # ds @ rest"
    using assms(1) w by (simp add: dropWhile_append2)
  moreover have "dropWhile ident_char (ds @ rest) = rest"
    using assms(4,5) w by (cases rest) (auto simp: dropWhile_append2)
  ultimately show ?thesis using assms(3) w by simp
qed

text \<open>
  Claim C3: the bareword pattern also matches the JSON literals \<^verbatim>\<open>true\<close>, \<^verbatim>\<open>false\<close> and
  \<^verbatim>\<open>null\<close>, so such a value after a colon (and optional white space \<open>ws\<close>) is replaced
  by the quoted placeholder, whatever text \<open>p\<close> comes before the colon and whatever text
  \<open>rest\<close> follows the literal (\<open>rest\<close> not starting with an identifier character, so
  that the literal is the whole token); the candidate \<^verbatim>\<open>{"a": true}\<close> is rewritten to
  \<^verbatim>\<open>{"a": "<undefined>"}\<close>.
\<close>

theorem json_literals_replaced:
  \<open>((w = ''true'' \<or> w = ''false'' \<or> w = ''null'') \<and> (\<forall>c \<in> set ws. re_space c)
      \<and> (rest = [] \<or> \<not> ident_char (hd rest)) \<longrightarrow>
      replace_undefined (p @ CHR '':'' # ws @ w @ rest) =
        replace_undefined p @ '': "<undefined>"'' @ replace_undefined rest)
   \<and> replace_undefined ''{"a": true}'' = ''{"a": "<undefined>"}''\<close>
proof -
  have g: \<open>replace_undefined (p @ CHR '':'' # ws @ w @ rest) =
        replace_undefined p @ '': "<undefined>"'' @ replace_undefined rest\<close>
    if w: "w = ''true'' \<or> w = ''false'' \<or> w = ''null''" and ws: "\<forall>c \<in> set ws. re_space c"
      and rest: "rest = [] \<or> \<not> ident_char (hd rest)"
  proof -
    have "w \<noteq> [] \<and> ident_start (hd w) \<and> (\<forall>c \<in> set w. ident_char c)"
      using w by (auto simp: ident_start_def ident_char_def)
    then have "match_undefined (CHR '':'' # ws @ w @ rest) = Some rest"
      using ws rest by (intro match_undefined_word) simp_all
    from replace_undefined_at_match[OF this, of p] show ?thesis
      by (simp add: undefined_placeholder_def)
  qed
  have e: \<open>replace_undefined ''{"a": true}'' = ''{"a": "<undefined>"}''\<close>
    by code_simp
  from g e show ?thesis by blast
qed

theorem json_literals_replaced_witness:
  \<open>replace_undefined (''{"a"'' @ CHR '':'' # '' '' @ ''null'' @ ''}'') =
     replace_undefined ''{"a"'' @ '': "<undefined>"'' @ replace_undefined ''}''\<close>
proof -
  have h1: \<open>\<forall>c \<in> set '' ''. re_space c\<close> by (simp add: re_space_def)
  have h2: \<open>\<not> ident_char (hd ''}'')\<close> by (simp add: ident_char_def ident_start_def)
  from json_literals_replaced[of \<open>''null''\<close> \<open>'' ''\<close> \<open>''}''\<close> \<open>''{"a"''\<close>] h1 h2
  show ?thesis by blast
qed

text \<open>
  Claim C10: the substitution does not look at quotes. Wherever the pattern matches (a
  colon, optional white space, a bareword), after any text \<open>p\<close>, the match is replaced by
  the placeholder. In particular, in the valid JSON object \<^verbatim>\<open>{"note": "a: b"}\<close> the
  string value is rewritten, the result is no longer valid, and
  \<^verbatim>\<open>extract_top_level_json\<close> returns the empty list for it.
\<close>

theorem repair_ignores_quotes:
  \<open>(match_undefined m = Some r \<longrightarrow>
       replace_undefined (p @ m) = replace_undefined p @ '': "<undefined>"'' @ replace_undefined r)
   \<and> replace_undefined ''{"note": "a: b"}'' = ''{"note": "a: "<undefined>""}''
   \<and> replace_undefined ''{"note": "a: b"}'' \<noteq> ''{"note": "a: b"}''
   \<and> is_valid_json ''{"note": "a: b"}'' = Inr True
   \<and> extract_top_level_json ''{"note": "a: b"}'' = Inr []\<close>
proof -
  have g: \<open>match_undefined m = Some r \<longrightarrow>
       replace_undefined (p @ m) = replace_undefined p @ '': "<undefined>"'' @ replace_undefined r\<close>
    using replace_undefined_at_match[of m r p] by (simp add: undefined_placeholder_def)
  have e1: \<open>replace_undefined ''{"note": "a: b"}'' = ''{"note": "a: "<undefined>""}''\<close>
    by code_simp
  have e2: \<open>replace_undefined ''{"note": "a: b"}'' \<noteq> ''{"note": "a: b"}''\<close>
    unfolding e1 by simp
  have e3: \<open>is_valid_json ''{"note": "a: b"}'' = Inr True\<close>
    by code_simp
  have e4: \<open>extract_top_level_json ''{"note": "a: b"}'' = Inr []\<close>
    by code_simp
  from g e1 e2 e3 e4 show ?thesis by blast
qed

theorem repair_ignores_quotes_witness:
  \<open>match_undefined '': b"}'' = Some ''"}''
   \<and> replace_undefined (''{"note": "a'' @ '': b"}'') =
       replace_undefined ''{"note": "a'' @ '': "<undefined>"'' @ replace_undefined ''"}''\<close>
proof -
  have m: \<open>match_undefined '': b"}'' = Some ''"}''\<close>
    by (simp add: re_space_def ident_start_def ident_char_def)
  from repair_ignores_quotes[of \<open>'': b"}''\<close> \<open>''"}''\<close> \<open>''{"note": "a''\<close>] m
  show ?thesis by blast
qed

subsection \<open>The span scanner\<close>

lemma quoted_body_close: "t' = [] \<or> hd t' \<noteq> q \<Longrightarrow> quoted_body q (q # t') = Some t'"
  by (cases t') auto

lemma quoted_body_split:
  "quoted_body q s = Some t \<Longrightarrow>
     \<exists>a. s = a @ t \<and> a \<noteq> [] \<and> last a = q \<and> (t = [] \<or> hd t \<noteq> q)
       \<and> (\<forall>t'. t' = [] \<or> hd t' \<noteq> q \<longrightarrow> quoted_body q (a @ t') = Some t')"
proof (induction q s arbitrary: t rule: quoted_body.induct)
  case (1 q)
  then show ?case by simp
next
  case (2 q c)
  then have "c = q" "t = []" by (auto split: if_splits)
  then show ?case
    by (intro exI[of _ "[q]"]) (simp add: quoted_body_close)
next
  case (3 q c d cs)
  let ?ok = "\<lambda>a s. s = a @ t \<and> a \<noteq> [] \<and> last a = q \<and> (t = [] \<or> hd t \<noteq> q)
       \<and> (\<forall>t'. t' = [] \<or> hd t' \<noteq> q \<longrightarrow> quoted_body q (a @ t') = Some t')"
  show ?case
  proof (cases "c = q")
    case True
    show ?thesis
    proof (cases "d = q")
      case dq: True
      then have "quoted_body q cs = Some t" using "3.prems" True by simp
      from "3.IH"(1)[OF True dq this] obtain a where a: "?ok a cs" by blast
      have "?ok (c # d # a) (c # d # cs)" using a True dq by simp
      then show ?thesis by blast
    next
      case False
      then have t: "t = d # cs" using "3.prems" True by simp
      have "?ok [q] (c # d # cs)" using t True False by (simp add: quoted_body_close)
      then show ?thesis by blast
    qed
  next
    case nq: False
    show ?thesis
    proof (cases "c = backslash")
      case True
      show ?thesis
      proof (cases "d = CHR ''x''")
        case x: True
        then obtain e es where cs: "cs = e # es" and hex: "is_hexdigit e"
          and q: "quoted_body q cs = Some t"
          using "3.prems" nq True by (cases cs) (auto split: if_splits)
        from "3.IH"(2)[OF nq True x cs hex q] obtain a where a: "?ok a cs" by blast
        then obtain a' where a': "a = e # a'" using cs by (cases a) auto
        have "?ok (c # d # a) (c # d # cs)" using a nq True x hex a' by simp
        then show ?thesis by blast
      next
        case False
        then have "quoted_body q cs = Some t" using "3.prems" nq True by simp
        from "3.IH"(3)[OF nq True False this] obtain a where a: "?ok a cs" by blast
        have "?ok (c # d # a) (c # d # cs)" using a nq True False by simp
        then show ?thesis by blast
      qed
    next
      case False
      then have nl: "\<not> (c = CHR 0x0A \<or> c = CHR 0x0D)" and q: "quoted_body q (d # cs) = Some t"
        using "3.prems" nq by (auto split: if_splits)
      from "3.IH"(4)[OF nq False nl q] obtain a where a: "?ok a (d # cs)" by blast
      then obtain a' where a': "a = d # a'" by (cases a) auto
      have "?ok (c # a) (c # d # cs)" using a nq False nl a' by simp
      then show ?thesis by blast
    qed
  qed
qed

lemma quoted_string_split:
  assumes "quoted_string (c # cs) = Some t"
  shows "\<exists>a. cs = a @ t \<and> a \<noteq> [] \<and> last a = c \<and> (c = CHR 0x22 \<or> c = CHR 0x27)
       \<and> (t = [] \<or> hd t \<noteq> c)
       \<and> (\<forall>t'. t' = [] \<or> hd t' \<noteq> c \<longrightarrow> quoted_string (c # a @ t') = Some t')"
proof -
  have c: "c = CHR 0x22 \<or> c = CHR 0x27" and q: "quoted_body c cs = Some t"
    using assms by (auto split: if_splits)
  from quoted_body_split[OF q] obtain a where a: "cs = a @ t \<and> a \<noteq> [] \<and> last a = c
    \<and> (t = [] \<or> hd t \<noteq> c)
    \<and> (\<forall>t'. t' = [] \<or> hd t' \<noteq> c \<longrightarrow> quoted_body c (a @ t') = Some t')" by (elim exE)
  show ?thesis
    by (rule exI[of _ a]) (use c a in auto)
qed

lemma quoted_string_fail_keep:
  assumes n: "quoted_string (c # cs) = None" and m: "cs = m @ r" "m \<noteq> []" "last m = CHR ''}''"
  shows "quoted_string (c # m) = None"
proof (rule ccontr)
  assume "quoted_string (c # m) \<noteq> None"
  then obtain t where t: "quoted_string (c # m) = Some t" by auto
  from quoted_string_split[OF t] obtain a where a: "m = a @ t \<and> a \<noteq> [] \<and> last a = c
    \<and> (c = CHR 0x22 \<or> c = CHR 0x27) \<and> (t = [] \<or> hd t \<noteq> c)
    \<and> (\<forall>t'. t' = [] \<or> hd t' \<noteq> c \<longrightarrow> quoted_string (c # a @ t') = Some t')" by (elim exE)
  have "t \<noteq> []"
  proof
    assume "t = []"
    then have "last m = c" using a by simp
    then show False using m(3) a by auto
  qed
  then have "t @ r = [] \<or> hd (t @ r) \<noteq> c" using a by simp
  then have "quoted_string (c # a @ t @ r) = Some (t @ r)" using a by blast
  moreover have "c # a @ t @ r = c # cs" using a m(1) by simp
  ultimately show False using n by simp
qed

lemma nested_body_closed_prefix:
  "nested_body d s = Some r \<Longrightarrow>
     \<exists>m. s = m @ r \<and> nested_body d m = Some [] \<and> m \<noteq> [] \<and> last m = CHR ''}''"
proof (induction d s arbitrary: r rule: nested_body.induct)
  case (1 d)
  then show ?case by simp
next
  case (2 d c cs)
  let ?ok = "\<lambda>d m s. s = m @ r \<and> nested_body d m = Some [] \<and> m \<noteq> [] \<and> last m = CHR ''}''"
  show ?case
  proof (cases "quoted_string (c # cs)")
    case (Some q)
    then have nb: "nested_body d q = Some r" using "2.prems" by simp
    from "2.IH"(4)[OF Some nb] obtain m where m: "?ok d m q" by (elim exE)
    from quoted_string_split[OF Some] obtain a where a: "cs = a @ q \<and> a \<noteq> [] \<and> last a = c
      \<and> (c = CHR 0x22 \<or> c = CHR 0x27) \<and> (q = [] \<or> hd q \<noteq> c)
      \<and> (\<forall>t'. t' = [] \<or> hd t' \<noteq> c \<longrightarrow> quoted_string (c # a @ t') = Some t')" by (elim exE)
    have "q \<noteq> []" using m by auto
    then have "hd m \<noteq> c" using a m by (cases m) auto
    then have qs: "quoted_string (c # a @ m) = Some m" using a by blast
    have "nested_body d (c # a @ m) = Some []"
      by (subst nested_body.simps(2)) (simp only: qs option.case m)
    moreover have "c # cs = (c # a @ m) @ r" using a m by simp
    moreover have "last (c # a @ m) = CHR ''}''" using m by simp
    ultimately have "?ok d (c # a @ m) (c # cs)" by blast
    then show ?thesis by (rule exI)
  next
    case None
    show ?thesis
    proof (cases "c = CHR ''{''")
      case True
      then have "nested_body (Suc d) cs = Some r" using "2.prems" None by simp
      from "2.IH"(1)[OF None True this] obtain m where m: "?ok (Suc d) m cs" by (elim exE)
      have qn: "quoted_string (c # m) = None" using quoted_string_fail_keep[OF None] m by blast
      have "nested_body d (c # m) = Some []" using qn m
        by (subst nested_body.simps(2))
           (simp add: True del: nested_body.simps quoted_string.simps)
      moreover have "c # cs = (c # m) @ r" using m by simp
      moreover have "last (c # m) = CHR ''}''" using m by simp
      ultimately have "?ok d (c # m) (c # cs)" by blast
      then show ?thesis by (rule exI)
    next
      case False
      show ?thesis
      proof (cases "c = CHR ''}''")
        case c: True
        have qn: "quoted_string (c # m) = None" for m using c by simp
        show ?thesis
        proof (cases d)
          case 0
          then have "r = cs" using "2.prems" None c by simp
          moreover have "nested_body d [c] = Some []" using qn[of "[]"]
            by (subst nested_body.simps(2))
               (simp add: c 0 del: nested_body.simps quoted_string.simps)
          ultimately have "?ok d [c] (c # cs)" using c by simp
          then show ?thesis by (rule exI)
        next
          case (Suc d')
          then have "nested_body d' cs = Some r" using "2.prems" None False c by simp
          from "2.IH"(2)[OF None False c Suc this] obtain m where m: "?ok d' m cs" by (elim exE)
          have "nested_body d (c # m) = Some []" using qn[of m] m
            by (subst nested_body.simps(2))
               (simp add: c Suc del: nested_body.simps quoted_string.simps)
          moreover have "c # cs = (c # m) @ r" using m by simp
          moreover have "last (c # m) = CHR ''}''" using m by simp
          ultimately have "?ok d (c # m) (c # cs)" by blast
          then show ?thesis by (rule exI)
        qed
      next
        case c: False
        then have "nested_body d cs = Some r" using "2.prems" None False by simp
        from "2.IH"(3)[OF None False c this] obtain m where m: "?ok d m cs" by (elim exE)
        have qn: "quoted_string (c # m) = None" using quoted_string_fail_keep[OF None] m by blast
        have "nested_body d (c # m) = Some []" using qn m
          by (subst nested_body.simps(2))
             (simp add: c False del: nested_body.simps quoted_string.simps)
        moreover have "c # cs = (c # m) @ r" using m by simp
        moreover have "last (c # m) = CHR ''}''" using m by simp
        ultimately have "?ok d (c # m) (c # cs)" by blast
        then show ?thesis by (rule exI)
      qed
    qed
  qed
qed

lemma nested_expr_closed_prefix:
  assumes "nested_expr s = Some r"
  shows "nested_expr (take (length s - length r) s) = Some []"
proof -
  obtain cs where s: "s = CHR ''{'' # cs" and nb: "nested_body 0 cs = Some r"
    using assms by (cases s) (auto split: if_splits)
  from nested_body_closed_prefix[OF nb] obtain m where m: "cs = m @ r" "nested_body 0 m = Some []"
    by blast
  have "take (length s - length r) s = CHR ''{'' # m" using s m(1) by simp
  then show ?thesis using m(2) by simp
qed

lemma scan_string_closed: "c \<in> set (scan_string s) \<Longrightarrow> nested_expr c = Some []"
proof (induction s rule: scan_string.induct)
  case 1
  then show ?case by simp
next
  case (2 c' cs)
  show ?case
  proof (cases "pp_white c'")
    case True
    then show ?thesis using 2 by simp
  next
    case False
    show ?thesis
    proof (cases "nested_expr (c' # cs)")
      case None
      then show ?thesis using 2 False by simp
    next
      case (Some r)
      then show ?thesis using 2 False nested_expr_closed_prefix[OF Some]
        by (auto simp del: nested_expr.simps)
    qed
  qed
qed

lemma candidates_closed: "c \<in> set (get_json_candidates s) \<Longrightarrow> nested_expr c = Some []"
  unfolding get_json_candidates_def by (rule scan_string_closed)

lemma qb_ordinary:
  "qordinary c \<Longrightarrow> s \<noteq> [] \<Longrightarrow> quoted_body (CHR 0x22) (c # s) = quoted_body (CHR 0x22) s"
  by (cases s) (auto simp: qordinary_def)

lemma qb_ordinary_list:
  "\<forall>c \<in> set xs. qordinary c \<Longrightarrow> s \<noteq> [] \<Longrightarrow>
     quoted_body (CHR 0x22) (xs @ s) = quoted_body (CHR 0x22) s"
  by (induction xs) (auto simp: qb_ordinary)

lemma quoted_run_skipped:
  assumes "\<forall>c \<in> set b. qordinary c" and "rest = [] \<or> hd rest \<noteq> CHR 0x22"
  shows "nested_body d (CHR 0x22 # b @ CHR 0x22 # rest) = nested_body d rest"
proof -
  have "quoted_body (CHR 0x22) (b @ CHR 0x22 # rest) = quoted_body (CHR 0x22) (CHR 0x22 # rest)"
    using assms(1) by (intro qb_ordinary_list) simp_all
  also have "\<dots> = Some rest" using assms(2) by (rule quoted_body_close)
  finally have "quoted_string (CHR 0x22 # b @ CHR 0x22 # rest) = Some rest" by simp
  then show ?thesis by (subst nested_body.simps(2)) (simp only: option.case)
qed







subsection \<open>The pipeline on the documented examples\<close>

text \<open>
  Claim C5: braces inside a quoted string are opaque to the span scanner. In general, a
  double-quoted run \<open>b\<close> of characters other than the quote, the backslash and the line
  ends is skipped as a whole, whatever braces it contains: the scanner continues after
  the closing quote at the depth \<open>d\<close> it had before the opening one. For
  \<^verbatim>\<open>J = {"text": "a { b } c"}\<close>, \<^verbatim>\<open>extract_top_level_json(J)\<close> returns exactly one
  candidate, the whole of \<^verbatim>\<open>J\<close>; an opening brace alone inside the quotes
  (\<^verbatim>\<open>{"t":"a{b"}\<close>) does not leave the span open, and a closing brace alone inside the
  quotes (\<^verbatim>\<open>{"t":"a}b"} x\<close>) does not end it.
\<close>

theorem quote_opacity:
  \<open>((\<forall>c \<in> set b. qordinary c) \<and> (rest = [] \<or> hd rest \<noteq> CHR 0x22) \<longrightarrow>
      nested_body d (CHR 0x22 # b @ CHR 0x22 # rest) = nested_body d rest)
   \<and> extract_top_level_json ''{"text": "a { b } c"}'' = Inr [''{"text": "a { b } c"}'']
   \<and> extract_top_level_json ''{"t":"a{b"}'' = Inr [''{"t":"a{b"}'']
   \<and> extract_top_level_json ''{"t":"a}b"} x'' = Inr [''{"t":"a}b"}'']\<close>
proof -
  have g: \<open>(\<forall>c \<in> set b. qordinary c) \<and> (rest = [] \<or> hd rest \<noteq> CHR 0x22) \<longrightarrow>
      nested_body d (CHR 0x22 # b @ CHR 0x22 # rest) = nested_body d rest\<close>
    using quoted_run_skipped[of b rest d] by blast
  have e1: \<open>extract_top_level_json ''{"text": "a { b } c"}'' = Inr [''{"text": "a { b } c"}'']\<close>
    by code_simp
  have e2: \<open>extract_top_level_json ''{"t":"a{b"}'' = Inr [''{"t":"a{b"}'']\<close>
    by code_simp
  have e3: \<open>extract_top_level_json ''{"t":"a}b"} x'' = Inr [''{"t":"a}b"}'']\<close>
    by code_simp
  from g e1 e2 e3 show ?thesis by blast
qed

theorem quote_opacity_witness:
  \<open>nested_body 0 (CHR 0x22 # ''a { b } c'' @ CHR 0x22 # ''}'') = nested_body 0 ''}''
   \<and> nested_body 0 ''}'' = Some []\<close>
proof -
  have h: \<open>\<forall>c \<in> set ''a { b } c''. qordinary c\<close>
    by (simp add: qordinary_def backslash_def)
  have r: \<open>''}'' = [] \<or> hd ''}'' \<noteq> CHR 0x22\<close> by simp
  from quote_opacity[of \<open>''a { b } c''\<close> \<open>''}''\<close> 0] h r
  have \<open>nested_body 0 (CHR 0x22 # ''a { b } c'' @ CHR 0x22 # ''}'') = nested_body 0 ''}''\<close>
    by blast
  moreover have \<open>nested_body 0 ''}'' = Some []\<close> by simp
  ultimately show ?thesis by blast
qed

text \<open>
  Claim C7: bareword repair end to end. \<^verbatim>\<open>extract_top_level_json('{"rent": DO-NOT-KNOW}')\<close>
  returns the one candidate \<^verbatim>\<open>{"rent": "<undefined>"}\<close>, and
  \<^verbatim>\<open>top_level_json_field('{"rent": DO-NOT-KNOW}', "rent")\<close> returns the string
  \<^verbatim>\<open><undefined>\<close>.
\<close>

theorem bareword_repair_example:
  \<open>extract_top_level_json ''{"rent": DO-NOT-KNOW}'' = Inr [''{"rent": "<undefined>"}'']
   \<and> top_level_json_field ''{"rent": DO-NOT-KNOW}'' ''rent'' = Inr (PyStr (ustr_of ''<undefined>''))\<close>
  by code_simp

text \<open>
  Claim C8: several top-level objects each give a candidate, in the order of the text:
  \<^verbatim>\<open>extract_top_level_json('{"a":1} noise {"b":2}')\<close> returns \<^verbatim>\<open>{"a":1}\<close> then
  \<^verbatim>\<open>{"b":2}\<close> and nothing else.
\<close>

theorem multiple_objects_example:
  \<open>extract_top_level_json ''{"a":1} noise {"b":2}'' = Inr [''{"a":1}'', ''{"b":2}'']\<close>
  by code_simp

subsection \<open>Unbalanced opening braces\<close>




subsection \<open>Field projection\<close>

text \<open>
  The validity filter keeps exactly the candidates that \<^verbatim>\<open>json.loads\<close> decodes, every
  candidate starts with an opening brace, and a text starting with an opening brace decodes
  to a dictionary or not at all.
\<close>

lemma json_loads_cases: "json_loads s = Inl JSONDecodeError \<or> (\<exists>v. json_loads s = Inr v)"
  unfolding json_loads_def decode_def by (auto split: option.splits)

lemma is_valid_json_eq: "is_valid_json s = Inr (\<exists>v. json_loads s = Inr v)"
  using json_loads_cases[of s] unfolding is_valid_json_def by auto

lemma filter_valid_eq:
  "filter_valid cs = Inr (filter (\<lambda>c. \<exists>v. json_loads c = Inr v) cs)"
  by (induction cs) (simp_all add: is_valid_json_eq)

lemma extract_eq:
  "extract_top_level_json s =
     Inr (filter (\<lambda>c. \<exists>v. json_loads c = Inr v)
            (map replace_undefined (map normalize_candidate (get_json_candidates s))))"
  by (simp add: extract_top_level_json_def filter_valid_eq)

lemma candidate_open: "c \<in> set (get_json_candidates s) \<Longrightarrow> \<exists>t. c = CHR ''{'' # t"
  using candidates_closed[of c s] by (cases c) (auto split: if_splits)

lemma normalize_open: "\<exists>t'. normalize_candidate (CHR ''{'' # t) = CHR ''{'' # t'"
  by (simp add: normalize_unesc unesc_step)

lemma replace_undefined_open: "replace_undefined (CHR ''{'' # t) = CHR ''{'' # replace_undefined t"
  by (simp add: replace_undefined_def)

lemma json_loads_open:
  assumes "json_loads (CHR ''{'' # t) = Inr v"
  shows "\<exists>d. v = PyDict d"
proof -
  have "skip_ws (CHR ''{'' # t) = CHR ''{'' # t" by (simp add: skip_ws_def json_ws_def)
  then show ?thesis using assms unfolding json_loads_def decode_def
    by (auto simp: scan_once.simps(2) split: option.splits if_splits)
qed

lemma extract_objects:
  assumes "extract_top_level_json s = Inr jsons" "j \<in> set jsons"
  shows "\<exists>d. json_loads j = Inr (PyDict d)"
proof -
  from assms obtain c v where c: "c \<in> set (get_json_candidates s)"
    and j: "j = replace_undefined (normalize_candidate c)" and v: "json_loads j = Inr v"
    unfolding extract_eq by auto
  from candidate_open[OF c] obtain t where "c = CHR ''{'' # t" by blast
  then obtain t' where "j = CHR ''{'' # t'"
    using j normalize_open[of t] by (auto simp: replace_undefined_open)
  then show ?thesis using v json_loads_open by blast
qed

lemma field_loop_objects:
  "\<forall>j \<in> set jsons. \<exists>d. json_loads j = Inr (PyDict d) \<Longrightarrow>
     field_loop jsons f = Inr (spec_first_match f jsons)"
proof (induction jsons)
  case Nil
  then show ?case by simp
next
  case (Cons j jsons)
  then obtain d where d: "json_loads j = Inr (PyDict d)" by auto
  have ih: "field_loop jsons f = Inr (spec_first_match f jsons)" using Cons by simp
  show ?case
  proof (cases "map_of d f")
    case None
    then have "f \<notin> fst ` set d" by (simp add: map_of_eq_None_iff)
    then show ?thesis using d None ih by (simp add: spec_top_level_value_def)
  next
    case (Some v)
    then have "f \<in> fst ` set d" by (metis map_of_eq_None_iff option.distinct(1))
    then show ?thesis using d Some by (simp add: spec_top_level_value_def)
  qed
qed

text \<open>
  Claim C6: \<^verbatim>\<open>top_level_json_field(s, f)\<close> returns the value bound to \<^verbatim>\<open>f\<close> in the first valid
  candidate, in document order, whose top level has the key \<^verbatim>\<open>f\<close>, and the empty string when
  no valid candidate has it; keys inside sub-objects do not count. Whenever
  \<^verbatim>\<open>extract_top_level_json\<close> returns the list \<^verbatim>\<open>jsons\<close>, the result is the first-match value of
  the specification over that list. On \<^verbatim>\<open>{"a":1} {"a":2}\<close> the field \<^verbatim>\<open>a\<close> is 1 (the first
  candidate, not the last); on \<^verbatim>\<open>{"b":1} {"a":2}\<close> it is 2 (the first candidate that has the
  key, not the first candidate); on \<^verbatim>\<open>{"b": {"a": 1}}\<close> it is the empty string (the nested
  key is not seen); with no candidate at all it is the empty string.
\<close>

theorem first_match_precedence:
  \<open>(extract_top_level_json s = Inr jsons \<longrightarrow>
       top_level_json_field s f = Inr (spec_first_match (ustr_of f) jsons))
   \<and> top_level_json_field ''{"a":1} {"a":2}'' ''a'' = Inr (PyInt 1)
   \<and> top_level_json_field ''{"b":1} {"a":2}'' ''a'' = Inr (PyInt 2)
   \<and> top_level_json_field ''{"b": {"a": 1}}'' ''a'' = Inr (PyStr [])
   \<and> top_level_json_field ''no json here at all'' ''x'' = Inr (PyStr [])\<close>
proof -
  have g: \<open>extract_top_level_json s = Inr jsons \<longrightarrow>
       top_level_json_field s f = Inr (spec_first_match (ustr_of f) jsons)\<close>
  proof
    assume e: "extract_top_level_json s = Inr jsons"
    then have "\<forall>j \<in> set jsons. \<exists>d. json_loads j = Inr (PyDict d)"
      using extract_objects by blast
    from field_loop_objects[OF this, of "ustr_of f"] e
    show "top_level_json_field s f = Inr (spec_first_match (ustr_of f) jsons)"
      by (cases jsons) (simp_all add: top_level_json_field_def)
  qed
  have e1: \<open>top_level_json_field ''{"a":1} {"a":2}'' ''a'' = Inr (PyInt 1)\<close> by code_simp
  have e2: \<open>top_level_json_field ''{"b":1} {"a":2}'' ''a'' = Inr (PyInt 2)\<close> by code_simp
  have e3: \<open>top_level_json_field ''{"b": {"a": 1}}'' ''a'' = Inr (PyStr [])\<close> by code_simp
  have e4: \<open>top_level_json_field ''no json here at all'' ''x'' = Inr (PyStr [])\<close> by code_simp
  from g e1 e2 e3 e4 show ?thesis by blast
qed

theorem first_match_precedence_witness:
  \<open>extract_top_level_json ''{"a":1} {"a":2}'' = Inr [''{"a":1}'', ''{"a":2}'']
   \<and> top_level_json_field ''{"a":1} {"a":2}'' ''a''
       = Inr (spec_first_match (ustr_of ''a'') [''{"a":1}'', ''{"a":2}''])
   \<and> spec_first_match (ustr_of ''a'') [''{"a":1}'', ''{"a":2}''] = PyInt 1\<close>
proof -
  have h: \<open>extract_top_level_json ''{"a":1} {"a":2}'' = Inr [''{"a":1}'', ''{"a":2}'']\<close>
    by code_simp
  from first_match_precedence[of \<open>''{"a":1} {"a":2}''\<close> \<open>[''{"a":1}'', ''{"a":2}'']\<close> \<open>''a''\<close>] h
  have \<open>top_level_json_field ''{"a":1} {"a":2}'' ''a''
       = Inr (spec_first_match (ustr_of ''a'') [''{"a":1}'', ''{"a":2}''])\<close> by blast
  moreover have \<open>spec_first_match (ustr_of ''a'') [''{"a":1}'', ''{"a":2}''] = PyInt 1\<close>
    by code_simp
  ultimately show ?thesis using h by blast
qed


subsection \<open>Validity\<close>




end
